theory Spec2Isabelle
  imports Main "HOL-Library.Word"
begin

section \<open>Node layout\<close>

text \<open>
  The tree is instantiated with \<open>KeyT = ValueT = uint64_t\<close>: \<open>LeafNode::insert\<close> stores
  the result of \<open>get_value_vector\<close> in a \<open>std::vector<uint64_t>\<close>, and \<open>get_value_vector\<close>
  returns a \<open>std::vector<KeyT>\<close> as \<open>std::vector<ValueT>\<close>.  Keys, values and page
  identifiers are 64-bit words, the header fields are 16-bit words.  Array indices are
  \<open>uint32_t\<close> in the source; they never exceed the 16-bit count, so they are natural
  numbers here.
\<close>

type_synonym key = "64 word"
type_synonym pageid = "64 word"

definition kCapacity :: nat where
  "kCapacity = 42"

section \<open>Binary search inside a node\<close>

text \<open>
  The loop of \<open>lower_bound\<close> (identical in \<open>InnerNode\<close> and \<open>LeafNode\<close>).  \<open>lo\<close> and \<open>hi\<close> are the
  variables \<open>start\<close> and \<open>end\<close>; \<open>end = center - 1\<close> is reached with \<open>center > 0\<close> only.
\<close>

function lb_loop :: "key list \<Rightarrow> key \<Rightarrow> nat \<Rightarrow> nat \<Rightarrow> nat \<Rightarrow> nat \<times> bool" where
  "lb_loop ks k cnt lo hi =
     (if lo \<le> hi then
        (let center = lo + (hi - lo) div 2 in
         if ks ! center = k then (center, True)
         else if ks ! center < k then lb_loop ks k cnt (center + 1) hi
         else if center = 0 \<or> ks ! (center - 1) < k then (center, True)
         else lb_loop ks k cnt lo (center - 1))
      else (cnt, False))"
  by pat_completeness auto
termination
  by (relation "measure (\<lambda>(ks, k, cnt, lo, hi). hi + 1 - lo)") auto

declare lb_loop.simps [simp del]

definition lower_bound :: "key list \<Rightarrow> nat \<Rightarrow> key \<Rightarrow> nat \<times> bool" where
  "lower_bound ks cnt k = (if cnt = 0 then (0, False) else lb_loop ks k cnt 0 (cnt - 1))"

text \<open>Strictly increasing prefix \<open>keys[0..cnt)\<close>.\<close>

definition strict_prefix :: "key list \<Rightarrow> nat \<Rightarrow> bool" where
  "strict_prefix ks cnt = sorted_wrt (<) (take cnt ks)"


section \<open>Pages\<close>

text \<open>
  A node is the leading part of a page buffer: the header (\<open>level\<close>, \<open>count\<close>), then
  \<open>keys[42]\<close>, then \<open>values[42]\<close> of a leaf or \<open>children[42]\<close> of an inner node.  Both node
  types have the same layout and the controller reinterprets the same bytes by \<open>level\<close>,
  so one record stands for both; \<open>payload\<close> is \<open>values\<close> or \<open>children\<close>.  \<open>slack\<close> is the
  word of the page buffer that follows the second array: the source reads it (never
  writes it) when it copies one element too many, so the buffer is taken to be larger
  than the node.
\<close>

record page =
  level :: "16 word"
  count :: "16 word"
  keys :: "key list"
  payload :: "64 word list"
  slack :: "64 word"

definition is_leaf :: "page \<Rightarrow> bool" where
  "is_leaf p = (level p = 0)"

text \<open>The page pool hands out a zero-filled buffer for a page that was never written.\<close>

definition zero_page :: page where
  "zero_page = \<lparr>level = 0, count = 0, keys = replicate 42 0, payload = replicate 42 0, slack = 0\<rparr>"

text \<open>Memory as seen from the address of \<open>keys\<close> and from the address of the second array.\<close>

definition key_mem :: "page \<Rightarrow> 64 word list" where
  "key_mem p = keys p @ payload p @ [slack p]"

definition val_mem :: "page \<Rightarrow> 64 word list" where
  "val_mem p = payload p @ [slack p]"

text \<open>\<open>std::copy(vec.begin(), vec.end(), arr)\<close>: the vector overwrites the front of the array.\<close>

definition copy_to :: "'a list \<Rightarrow> 'a list \<Rightarrow> 'a list" where
  "copy_to vec arr = vec @ drop (length vec) arr"

text \<open>\<open>vec.insert(vec.begin() + i, x)\<close>.\<close>

definition vec_insert :: "'a list \<Rightarrow> nat \<Rightarrow> 'a \<Rightarrow> 'a list" where
  "vec_insert vec i x = take i vec @ x # drop i vec"

text \<open>
  \<open>memmove(arr + i, arr + i + 1, n * sizeof(T))\<close>: \<open>n\<close> elements move one slot to the left;
  \<open>mem\<close> is the memory from the address of \<open>arr\<close> on, so that a source range that leaves
  the array reads what follows it.
\<close>

definition shift_left :: "'a list \<Rightarrow> 'a list \<Rightarrow> nat \<Rightarrow> nat \<Rightarrow> 'a list" where
  "shift_left arr mem i n = take i arr @ take n (drop (i + 1) mem) @ drop (i + n) arr"

section \<open>Leaf node\<close>

definition get_key_vector_leaf :: "page \<Rightarrow> key list" where
  "get_key_vector_leaf p = take (unat (count p)) (keys p)"

definition get_value_vector :: "page \<Rightarrow> 64 word list" where
  "get_value_vector p = take (unat (count p)) (payload p)"

text \<open>\<open>syncArrays\<close> copies \<open>count\<close> elements of each vector; both have \<open>count\<close> elements.\<close>

definition syncArrays :: "page \<Rightarrow> key list \<Rightarrow> 64 word list \<Rightarrow> page" where
  "syncArrays p keyVec valueVec =
     p\<lparr>keys := copy_to (take (unat (count p)) keyVec) (keys p),
       payload := copy_to (take (unat (count p)) valueVec) (payload p)\<rparr>"

definition LeafNode_insert :: "page \<Rightarrow> key \<Rightarrow> 64 word \<Rightarrow> page" where
  "LeafNode_insert p k v =
     (let (insertPos, keyExists) = lower_bound (keys p) (unat (count p)) k;
          valueVec = get_value_vector p;
          keyVec = get_key_vector_leaf p
      in if keyExists \<and> k \<ge> keys p ! insertPos
         then syncArrays p keyVec (valueVec[insertPos := v])
         else if keyExists
         then syncArrays (p\<lparr>count := count p + 1\<rparr>)
                (vec_insert keyVec insertPos k) (vec_insert valueVec insertPos v)
         else syncArrays (p\<lparr>count := count p + 1\<rparr>) (keyVec @ [k]) (valueVec @ [v]))"

text \<open>
  \<open>locateKeyPosition\<close>: whether the key is there, and the position.  \<open>count - 1\<close> is
  converted to \<open>uint32_t\<close>; \<open>keys[position]\<close> is read only when the search reported a
  position inside the node.
\<close>

definition locateKeyPosition :: "page \<Rightarrow> key \<Rightarrow> bool \<times> nat" where
  "locateKeyPosition p k =
     (let (pos, found) = lower_bound (keys p) (unat (count p)) k;
          position = (if found then of_nat pos else ucast (count p) - 1 :: 32 word)
      in (found \<and> keys p ! unat position = k, unat position))"

definition moveDataToLeftFrom :: "page \<Rightarrow> nat \<Rightarrow> page" where
  "moveDataToLeftFrom p startIndex =
     (let n = unat (count p) - startIndex
      in p\<lparr>keys := shift_left (keys p) (key_mem p) startIndex n,
            payload := shift_left (payload p) (val_mem p) startIndex n,
            count := count p - 1\<rparr>)"

definition LeafNode_erase :: "page \<Rightarrow> key \<Rightarrow> page" where
  "LeafNode_erase p k =
     (let (isKeyPresent, idx) = locateKeyPosition p k
      in if isKeyPresent then moveDataToLeftFrom p idx else p)"

text \<open>
  \<open>LeafNode::split\<close>: the old leaf, the buffer of the new page; the result is the old
  leaf, the new leaf and the separator.  \<open>halfPoint\<close> goes to the new leaf's count and is
  taken off the old one; the level of the new leaf is what the buffer holds.
\<close>

definition LeafNode_split :: "page \<Rightarrow> page \<Rightarrow> page \<times> page \<times> key" where
  "LeafNode_split p buf =
     (let halfPoint = (unat (count p) - 1) div 2;
          separatorKey = keys p ! (halfPoint + 1);
          cnt = unat (count p) - halfPoint
      in (p\<lparr>count := count p - of_nat halfPoint\<rparr>,
          buf\<lparr>count := of_nat halfPoint,
              payload := copy_to (take (halfPoint + 1) (drop cnt (val_mem p))) (payload buf),
              keys := copy_to (take halfPoint (drop cnt (keys p))) (keys buf)\<rparr>,
          separatorKey))"

section \<open>Inner node\<close>

definition get_key_vector_inner :: "page \<Rightarrow> key list" where
  "get_key_vector_inner p = take (unat (count p) - 1) (keys p)"

definition get_child_vector :: "page \<Rightarrow> pageid list" where
  "get_child_vector p = take (unat (count p)) (payload p)"

definition InnerNode_insert :: "page \<Rightarrow> key \<Rightarrow> pageid \<Rightarrow> page" where
  "InnerNode_insert p k split_page =
     (let (insertPos, keyExists) = lower_bound (keys p) (unat (count p)) k;
          childVec = get_child_vector p;
          keyVec = get_key_vector_inner p;
          (keyVec', childVec') =
            (if unat (count p) = 1 then (keyVec, childVec @ [split_page])
             else if keyExists then
               (if k > keys p ! insertPos \<and> insertPos < unat (count p)
                then (keyVec, childVec[insertPos := split_page])
                else (vec_insert keyVec insertPos k, vec_insert childVec (insertPos + 1) split_page))
             else (keyVec @ [k], childVec @ [split_page]))
      in p\<lparr>count := count p + 1,
            payload := copy_to childVec' (payload p),
            keys := copy_to keyVec' (keys p)\<rparr>)"

text \<open>
  \<open>InnerNode::split\<close>: the constructor run on the buffer sets the header only; the arrays
  keep what the buffer holds until \<open>memcpy\<close> overwrites their front.
\<close>

definition InnerNode_split :: "page \<Rightarrow> page \<Rightarrow> page \<times> page \<times> key" where
  "InnerNode_split p buf =
     (let split_point = unat (count p) div 2;
          split_key = keys p ! (split_point - 1);
          tempNum = unat (count p) - split_point
      in (p\<lparr>count := of_nat split_point\<rparr>,
          buf\<lparr>level := level p, count := of_nat split_point,
              payload := copy_to (take tempNum (drop split_point (payload p))) (payload buf),
              keys := copy_to (take tempNum (drop split_point (keys p))) (keys buf)\<rparr>,
          split_key))"


section \<open>Page pool and tree state\<close>

text \<open>
  The page pool is outside the repository.  It is modelled as a store of the page
  buffers written so far, by page identifier, which keeps every buffer in memory, and a
  log of the calls it receives.  \<open>Write\<close> is not a call of the pool: it records that the controller
  changed the bytes of a page, so that the order of changes and releases can be read
  off the log.
\<close>

datatype event = Fix pageid bool | Unfix pageid bool | Write pageid

record btree =
  root :: "pageid option"
  next_page_id :: "64 word"
  store :: "(pageid \<times> page) list"
  log :: "event list"

text \<open>The buffer of a page: what was written last, or zeros when nothing was written.\<close>

definition pages :: "btree \<Rightarrow> pageid \<Rightarrow> page" where
  "pages t pid = (case map_of (store t) pid of Some p \<Rightarrow> p | None \<Rightarrow> zero_page)"

fun put :: "pageid \<Rightarrow> page \<Rightarrow> (pageid \<times> page) list \<Rightarrow> (pageid \<times> page) list" where
  "put pid p [] = [(pid, p)]"
| "put pid p ((q, x) # xs) = (if q = pid then (pid, p) # xs else (q, x) # put pid p xs)"

text \<open>The constructor; no page has been written.\<close>

definition BTree :: btree where
  "BTree = \<lparr>root = None, next_page_id = 1, store = [], log = []\<rparr>"

definition fix_page :: "pageid \<Rightarrow> bool \<Rightarrow> btree \<Rightarrow> btree" where
  "fix_page pid exclusive t = t\<lparr>log := log t @ [Fix pid exclusive]\<rparr>"

definition unfix_page :: "pageid \<Rightarrow> bool \<Rightarrow> btree \<Rightarrow> btree" where
  "unfix_page pid is_dirty t = t\<lparr>log := log t @ [Unfix pid is_dirty]\<rparr>"

definition write_page :: "pageid \<Rightarrow> page \<Rightarrow> btree \<Rightarrow> btree" where
  "write_page pid p t = t\<lparr>store := put pid p (store t), log := log t @ [Write pid]\<rparr>"

text \<open>
  An operation ends with \<open>Done\<close>, or with \<open>Fault\<close> where the source indexes an array at
  42 or beyond in a way the page record does not cover (a header whose count exceeds
  the capacity, the child index \<open>count - 1\<close> of \<open>lookup\<close> and \<open>erase\<close> converted to
  \<open>uint32_t\<close> with \<open>count = 0\<close>, an insertion into a full inner node).
\<close>

datatype 'a outcome = Fault | Done 'a

definition header_ok :: "page \<Rightarrow> bool" where
  "header_ok p = (unat (count p) \<le> 42 \<and> length (keys p) = 42 \<and> length (payload p) = 42)"

text \<open>
  The child \<open>lookup\<close> and \<open>erase\<close> take in an inner node: \<open>children[idx]\<close> when the
  search reports a position, \<open>children[count - 1]\<close> otherwise, with \<open>idx = count - 1\<close>
  stored in a \<open>uint32_t\<close>.
\<close>

definition child_for :: "page \<Rightarrow> key \<Rightarrow> pageid option" where
  "child_for p k =
     (let (idx, exactMatch) = lower_bound (keys p) (unat (count p)) k;
          idx' = (if exactMatch then of_nat idx else ucast (count p) - 1 :: 32 word)
      in if idx' < 42 then Some (payload p ! unat idx') else None)"

text \<open>
  The child \<open>insert\<close> takes: \<open>children[boundary.first]\<close> when the search reports a
  position, \<open>children[inner->count - 1]\<close> otherwise.  Here the index is computed in
  \<open>int\<close>; with \<open>count = 0\<close> it is \<open>-1\<close>, and the word before \<open>children\<close> in the page is
  \<open>keys[41]\<close>.
\<close>

definition insert_child :: "page \<Rightarrow> key \<Rightarrow> pageid" where
  "insert_child p k =
     (let (idx, found) = lower_bound (keys p) (unat (count p)) k
      in if found then payload p ! idx
         else if count p = 0 then keys p ! 41
         else payload p ! (unat (count p) - 1))"

section \<open>Lookup\<close>

partial_function (option) lookup_loop ::
    "key \<Rightarrow> pageid \<Rightarrow> btree \<Rightarrow> (64 word option \<times> btree) outcome option" where
  "lookup_loop k cur t =
     (let p = pages t cur in
      if \<not> header_ok p then Some Fault
      else if is_leaf p then
        (let (valueIdx, found) = lower_bound (keys p) (unat (count p)) k;
             t' = unfix_page cur False t
         in Some (Done (if found \<and> keys p ! valueIdx = k then Some (payload p ! valueIdx) else None, t')))
      else
        (case child_for p k of
           None \<Rightarrow> Some Fault
         | Some nextPageId \<Rightarrow>
             lookup_loop k nextPageId (unfix_page cur False (fix_page nextPageId False t))))"

declare lookup_loop.simps [code]

definition lookup :: "key \<Rightarrow> btree \<Rightarrow> (64 word option \<times> btree) outcome option" where
  "lookup k t =
     (case root t of
        None \<Rightarrow> Some (Done (None, t))
      | Some r \<Rightarrow> lookup_loop k r (fix_page r False t))"

section \<open>Erase\<close>

text \<open>
  The descent of \<open>erase\<close>: \<open>navigate_to_child\<close> releases the current page clean and pins
  the child; the released page is remembered as the parent.
\<close>

partial_function (option) erase_descend ::
    "key \<Rightarrow> pageid \<Rightarrow> pageid option \<Rightarrow> btree \<Rightarrow> (pageid \<times> pageid option \<times> btree) outcome option" where
  "erase_descend k cur parent t =
     (let p = pages t cur in
      if \<not> header_ok p then Some Fault
      else if is_leaf p then Some (Done (cur, parent, t))
      else
        (case child_for p k of
           None \<Rightarrow> Some Fault
         | Some nextPage \<Rightarrow>
             erase_descend k nextPage (Some cur) (fix_page nextPage False (unfix_page cur False t))))"

declare erase_descend.simps [code]

definition remove_from_parent :: "key \<Rightarrow> pageid \<Rightarrow> btree \<Rightarrow> btree" where
  "remove_from_parent k parent t =
     (let parentNode = pages t parent;
          (parentIdx, found) = lower_bound (keys parentNode) (unat (count parentNode)) k
      in if found \<and> keys parentNode ! parentIdx = k then
           (let temp = unat (count parentNode) - parentIdx
            in write_page parent
                 (parentNode\<lparr>keys := shift_left (keys parentNode) (key_mem parentNode) parentIdx temp,
                             payload := shift_left (payload parentNode) (val_mem parentNode) parentIdx temp,
                             count := count parentNode - 1\<rparr>) t)
         else t)"

definition erase :: "key \<Rightarrow> btree \<Rightarrow> btree outcome option" where
  "erase k t =
     (case root t of
        None \<Rightarrow> Some (Done t)
      | Some r \<Rightarrow>
          (case erase_descend k r None (fix_page r False t) of
             None \<Rightarrow> None
           | Some Fault \<Rightarrow> Some Fault
           | Some (Done (cur, parent, t1)) \<Rightarrow>
               (let leaf = pages t1 cur;
                    t2 = (if fst (locateKeyPosition leaf k)
                          then write_page cur (LeafNode_erase leaf k) t1 else t1);
                    t3 = (case parent of
                            Some par \<Rightarrow>
                              if count (pages t2 cur) \<le> 0 then remove_from_parent k par t2 else t2
                          | None \<Rightarrow> t2)
                in Some (Done (unfix_page cur True t3)))))"


section \<open>Insert\<close>

text \<open>The local variables of \<open>BTree::insert\<close>; a buffer frame is named by its page.\<close>

record insert_state =
  tree :: btree
  currentBuffer :: pageid
  parentBuffer :: "pageid option"
  currentIsDirty :: bool
  parentIsDirty :: bool

datatype step = Continue insert_state | Return btree | Abort

text \<open>\<open>InnerNode::insert\<close> writes \<open>children[count]\<close>, which the array has for \<open>count < 42\<close>.\<close>

definition InnerNode_insert_chk :: "page \<Rightarrow> key \<Rightarrow> pageid \<Rightarrow> page option" where
  "InnerNode_insert_chk p k split_page =
     (if header_ok p \<and> unat (count p) < 42 then Some (InnerNode_insert p k split_page) else None)"

text \<open>
  The branch \<open>!parentBuffer\<close> after a split: a new root page is taken, its level set, and
  the separator inserted twice, once with each half.
\<close>

definition new_root :: "16 word \<Rightarrow> key \<Rightarrow> pageid \<Rightarrow> pageid \<Rightarrow> btree \<Rightarrow> (pageid \<times> btree) option" where
  "new_root lvl splitKey oldID newID t =
     (let r = next_page_id t;
          t1 = fix_page r True (t\<lparr>root := Some r, next_page_id := r + 1\<rparr>);
          rootAsInner = (pages t1 r)\<lparr>level := lvl\<rparr>
      in case InnerNode_insert_chk rootAsInner splitKey oldID of
           None \<Rightarrow> None
         | Some n1 \<Rightarrow>
             (case InnerNode_insert_chk n1 splitKey newID of
                None \<Rightarrow> None
              | Some n2 \<Rightarrow> Some (r, write_page r n2 t1)))"

text \<open>The branch \<open>parentBuffer\<close> after a split: the separator goes into the pinned parent.\<close>

definition into_parent :: "pageid \<Rightarrow> key \<Rightarrow> pageid \<Rightarrow> btree \<Rightarrow> btree option" where
  "into_parent par splitKey newID t =
     (case InnerNode_insert_chk (pages t par) splitKey newID of
        None \<Rightarrow> None
      | Some n \<Rightarrow> Some (write_page par n t))"

text \<open>One pass through the body of \<open>while (true)\<close>.\<close>

definition insert_iter :: "key \<Rightarrow> 64 word \<Rightarrow> insert_state \<Rightarrow> step" where
  "insert_iter k v st =
     (let t = tree st; cur = currentBuffer st; p = pages t cur in
      if \<not> header_ok p then Abort
      else if is_leaf p then
        (if count p < 42 then
           (let t1 = unfix_page cur True (write_page cur (LeafNode_insert p k v) t)
            in Return (case parentBuffer st of
                         Some par \<Rightarrow> unfix_page par (parentIsDirty st) t1
                       | None \<Rightarrow> t1))
         else
           (let newLeafID = next_page_id t;
                t1 = fix_page newLeafID True (t\<lparr>next_page_id := newLeafID + 1\<rparr>);
                (left, right, splitKey) = LeafNode_split p (pages t1 newLeafID);
                t2 = write_page newLeafID right (write_page cur left t1);
                continue = (\<lambda>par parDirty t3.
                   Continue \<lparr>tree = unfix_page (if k < splitKey then newLeafID else cur) True t3,
                             currentBuffer = (if k \<ge> splitKey then newLeafID else cur),
                             parentBuffer = Some par,
                             currentIsDirty = True,
                             parentIsDirty = parDirty\<rparr>)
            in case parentBuffer st of
                 None \<Rightarrow>
                   (case root t2 of
                      None \<Rightarrow> Abort
                    | Some oldLeafID \<Rightarrow>
                        (case new_root 1 splitKey oldLeafID newLeafID t2 of
                           None \<Rightarrow> Abort
                         | Some (r, t3) \<Rightarrow> continue r True t3))
               | Some par \<Rightarrow>
                   (case into_parent par splitKey newLeafID t2 of
                      None \<Rightarrow> Abort
                    | Some t3 \<Rightarrow> continue par True t3)))
      else
        (if count p = 42 then
           (let newInnerID = next_page_id t;
                t1 = fix_page newInnerID True (t\<lparr>next_page_id := newInnerID + 1\<rparr>);
                (left, right, splitKey) = InnerNode_split p (pages t1 newInnerID);
                t2 = write_page newInnerID right (write_page cur left t1);
                continue = (\<lambda>par parDirty t3.
                   Continue \<lparr>tree = unfix_page (if k < splitKey then newInnerID else cur) True t3,
                             currentBuffer = (if k \<ge> splitKey then newInnerID else cur),
                             parentBuffer = Some par,
                             currentIsDirty = True,
                             parentIsDirty = parDirty\<rparr>)
            in case parentBuffer st of
                 None \<Rightarrow>
                   (case root t2 of
                      None \<Rightarrow> Abort
                    | Some oldInnerID \<Rightarrow>
                        (case new_root (level left + 1) splitKey oldInnerID newInnerID t2 of
                           None \<Rightarrow> Abort
                         | Some (r, t3) \<Rightarrow> continue r (parentIsDirty st) t3))
               | Some par \<Rightarrow>
                   (case into_parent par splitKey newInnerID t2 of
                      None \<Rightarrow> Abort
                    | Some t3 \<Rightarrow> continue par True t3))
         else
           (let childID = insert_child p k;
                t1 = (case parentBuffer st of
                        Some par \<Rightarrow> unfix_page par (parentIsDirty st) t
                      | None \<Rightarrow> t)
            in Continue (st\<lparr>tree := fix_page childID True t1,
                            currentBuffer := childID,
                            parentBuffer := Some cur\<rparr>))))"

partial_function (option) insert_loop :: "key \<Rightarrow> 64 word \<Rightarrow> insert_state \<Rightarrow> btree outcome option" where
  "insert_loop k v st =
     (case insert_iter k v st of
        Abort \<Rightarrow> Some Fault
      | Return t \<Rightarrow> Some (Done t)
      | Continue st' \<Rightarrow> insert_loop k v st')"

declare insert_loop.simps [code]

definition insert :: "key \<Rightarrow> 64 word \<Rightarrow> btree \<Rightarrow> btree outcome option" where
  "insert k v t =
     (let t0 = (if root t = None then t\<lparr>root := Some 0, next_page_id := 1\<rparr> else t)
      in case root t0 of
           None \<Rightarrow> Some Fault
         | Some r \<Rightarrow>
             insert_loop k v \<lparr>tree = fix_page r True t0, currentBuffer = r, parentBuffer = None,
                              currentIsDirty = False, parentIsDirty = False\<rparr>)"



text \<open>
  The tree while its root is still the first leaf: page 0 is a leaf with \<open>n\<close> strictly
  increasing keys, the set \<open>S\<close>, and no other page has been written.
\<close>

definition leaf_root :: "nat \<Rightarrow> key set \<Rightarrow> btree \<Rightarrow> bool" where
  "leaf_root n S t =
     ((root t = None \<or> root t = Some 0 \<and> next_page_id t = 1) \<and>
      (\<forall>pid. pid \<noteq> 0 \<longrightarrow> pages t pid = zero_page) \<and>
      level (pages t 0) = 0 \<and> unat (count (pages t 0)) = n \<and>
      length (keys (pages t 0)) = 42 \<and> length (payload (pages t 0)) = 42 \<and>
      strict_prefix (keys (pages t 0)) n \<and> set (take n (keys (pages t 0))) = S)"

text \<open>
  The shape that insertions keep once the root is an inner node.  An inner page has at
  least one child, and every child is an allocated page one level below.  In a tree every
  page that was not allocated yet is unwritten, every page has a header within capacity,
  and every page above level 0 is such an inner page.
\<close>

definition inner_ok :: "btree \<Rightarrow> page \<Rightarrow> bool" where
  "inner_ok t p =
     (1 \<le> unat (count p) \<and>
      (\<forall>c \<in> set (get_child_vector p).
         c < next_page_id t \<and> unat (level (pages t c)) + 1 = unat (level p)))"

definition pages_ok :: "btree \<Rightarrow> bool" where
  "pages_ok t =
     ((\<forall>pid. next_page_id t \<le> pid \<longrightarrow> pages t pid = zero_page) \<and>
      (\<forall>pid. header_ok (pages t pid)) \<and>
      (\<forall>pid. \<not> is_leaf (pages t pid) \<longrightarrow> inner_ok t (pages t pid)))"

definition tree_ok :: "btree \<Rightarrow> bool" where
  "tree_ok t = (pages_ok t \<and> (\<exists>r. root t = Some r \<and> \<not> is_leaf (pages t r)))"

text \<open>The level of the root page.\<close>

definition root_level :: "btree \<Rightarrow> nat" where
  "root_level t = (case root t of None \<Rightarrow> 0 | Some r \<Rightarrow> unat (level (pages t r)))"



text \<open>
  Counting over the allocated pages.  \<open>total f t\<close> adds \<open>f\<close> over the pages below
  \<open>next_page_id\<close>.  A leaf counts its entries, an inner page its children; a page at
  level \<open>l\<close> weighs \<open>2 ^ l\<close>, and each child slot of an inner page at level \<open>l\<close> weighs
  \<open>2 ^ (l - 1)\<close>, the weight of a page one level below.
\<close>

definition total :: "(page \<Rightarrow> nat) \<Rightarrow> btree \<Rightarrow> nat" where
  "total f t = sum (\<lambda>pid. f (pages t pid)) {pid. pid < next_page_id t}"

definition leaf_entries :: "page \<Rightarrow> nat" where
  "leaf_entries p = (if is_leaf p then unat (count p) else 0)"

definition child_slots :: "page \<Rightarrow> nat" where
  "child_slots p = (if is_leaf p then 0 else unat (count p))"

definition level_weight :: "page \<Rightarrow> nat" where
  "level_weight p = 2 ^ unat (level p)"

definition slot_weight :: "page \<Rightarrow> nat" where
  "slot_weight p = (if is_leaf p then 0 else 2 ^ (unat (level p) - 1) * unat (count p))"

text \<open>
  What insertions keep of these numbers once the root is an inner node, after at most
  \<open>n\<close> insertions: every allocated leaf holds at least 20 entries and every allocated inner
  page at least 2 children; the leaves hold at most \<open>n\<close> entries together; the pages below
  \<open>next_page_id\<close> are \<open>next_page_id\<close> many; every page but the root fills one child slot; and
  the same with each page and each slot weighed by its level.
\<close>

definition census :: "btree \<Rightarrow> nat \<Rightarrow> bool" where
  "census t n =
     ((\<forall>pid. pid < next_page_id t \<longrightarrow>
          (if is_leaf (pages t pid) then 20 else 2) \<le> unat (count (pages t pid))) \<and>
      total leaf_entries t \<le> n \<and>
      total (\<lambda>p. 1) t = unat (next_page_id t) \<and>
      total (\<lambda>p. 1) t = 1 + total child_slots t \<and>
      total level_weight t = 2 ^ root_level t + total slot_weight t)"

section \<open>Bounds-checked node helpers\<close>

text \<open>
  The three helpers that move array elements, with every array access checked against
  the 42 slots of the array it indexes: \<open>None\<close> is an access outside the array.
\<close>

text \<open>Reading \<open>arr[i .. i + n)\<close>.\<close>

definition slice_chk :: "'a list \<Rightarrow> nat \<Rightarrow> nat \<Rightarrow> 'a list option" where
  "slice_chk arr i n = (if n = 0 \<or> i + n \<le> length arr then Some (take n (drop i arr)) else None)"

text \<open>\<open>memmove(arr + i, arr + i + 1, n * sizeof(T))\<close> reads \<open>arr[i + 1 .. i + 1 + n)\<close>.\<close>

definition shift_left_chk :: "'a list \<Rightarrow> nat \<Rightarrow> nat \<Rightarrow> 'a list option" where
  "shift_left_chk arr i n =
     (case slice_chk arr (i + 1) n of
        None \<Rightarrow> None
      | Some moved \<Rightarrow> Some (take i arr @ moved @ drop (i + n) arr))"

definition moveDataToLeftFrom_chk :: "page \<Rightarrow> nat \<Rightarrow> page option" where
  "moveDataToLeftFrom_chk p startIndex =
     (let n = unat (count p) - startIndex
      in case (shift_left_chk (keys p) startIndex n, shift_left_chk (payload p) startIndex n) of
           (Some ks, Some vs) \<Rightarrow> Some (p\<lparr>keys := ks, payload := vs, count := count p - 1\<rparr>)
         | _ \<Rightarrow> None)"

definition transferDataToNewLeaf_chk :: "page \<Rightarrow> nat \<Rightarrow> page \<Rightarrow> page option" where
  "transferDataToNewLeaf_chk p startPoint leaf =
     (case (slice_chk (payload p) (unat (count p)) (startPoint + 1),
            slice_chk (keys p) (unat (count p)) startPoint) of
        (Some vs, Some ks) \<Rightarrow>
           Some (leaf\<lparr>payload := copy_to vs (payload leaf), keys := copy_to ks (keys leaf)\<rparr>)
      | _ \<Rightarrow> None)"

definition LeafNode_split_chk :: "page \<Rightarrow> page \<Rightarrow> (page \<times> page \<times> key) option" where
  "LeafNode_split_chk p buf =
     (let halfPoint = (unat (count p) - 1) div 2;
          separatorKey = keys p ! (halfPoint + 1);
          left = p\<lparr>count := count p - of_nat halfPoint\<rparr>
      in case transferDataToNewLeaf_chk left halfPoint (buf\<lparr>count := of_nat halfPoint\<rparr>) of
           None \<Rightarrow> None
         | Some right \<Rightarrow> Some (left, right, separatorKey))"

definition remove_from_parent_chk :: "key \<Rightarrow> page \<Rightarrow> page option" where
  "remove_from_parent_chk k parentNode =
     (let (parentIdx, found) = lower_bound (keys parentNode) (unat (count parentNode)) k
      in if found \<and> keys parentNode ! parentIdx = k then
           (let temp = unat (count parentNode) - parentIdx
            in case (shift_left_chk (keys parentNode) parentIdx temp,
                     shift_left_chk (payload parentNode) parentIdx temp) of
                 (Some ks, Some cs) \<Rightarrow>
                    Some (parentNode\<lparr>keys := ks, payload := cs, count := count parentNode - 1\<rparr>)
               | _ \<Rightarrow> None)
         else Some parentNode)"

section \<open>Sequences of operations and observations\<close>

datatype operation = Ins key "64 word" | Del key

text \<open>
  Runs the operations in order; the log is emptied before each one, so that after a
  run it holds the calls of the last operation.
\<close>

fun run :: "operation list \<Rightarrow> btree \<Rightarrow> btree outcome option" where
  "run [] t = Some (Done t)"
| "run (Ins k v # ops) t =
     (case insert k v (t\<lparr>log := []\<rparr>) of
        Some (Done t') \<Rightarrow> run ops t'
      | r \<Rightarrow> r)"
| "run (Del k # ops) t =
     (case erase k (t\<lparr>log := []\<rparr>) of
        Some (Done t') \<Rightarrow> run ops t'
      | r \<Rightarrow> r)"

text \<open>The result of \<open>lookup\<close> alone.\<close>

definition lookup_value :: "key \<Rightarrow> btree \<Rightarrow> 64 word option outcome option" where
  "lookup_value k t =
     (case lookup k t of
        None \<Rightarrow> None
      | Some Fault \<Rightarrow> Some Fault
      | Some (Done (v, t')) \<Rightarrow> Some (Done v))"

text \<open>The keys a leaf page holds, and the number of entries in the leaves allocated so far.\<close>

definition leaf_keys :: "btree \<Rightarrow> pageid \<Rightarrow> key list" where
  "leaf_keys t pid = get_key_vector_leaf (pages t pid)"

definition allocated :: "btree \<Rightarrow> pageid list" where
  "allocated t = map of_nat [0..<unat (next_page_id t)]"

definition entry_count :: "btree \<Rightarrow> nat" where
  "entry_count t =
     sum_list (map (\<lambda>pid. if is_leaf (pages t pid) then unat (count (pages t pid)) else 0) (allocated t))"

text \<open>Inserting the keys \<open>lo, lo + 1, ...\<close> (\<open>n\<close> of them), key \<open>i\<close> with value \<open>i + 100\<close>.\<close>

definition ins_range :: "nat \<Rightarrow> nat \<Rightarrow> operation list" where
  "ins_range lo n = map (\<lambda>i. Ins (of_nat i) (of_nat (i + 100))) [lo..<lo + n]"

definition del_range :: "nat \<Rightarrow> nat \<Rightarrow> operation list" where
  "del_range lo n = map (\<lambda>i. Del (of_nat i)) [lo..<lo + n]"

text \<open>
  The root page after the keys 0 to 64 were inserted in increasing order: an inner node
  with three children, the separators 21 and 43, and zeros in the slots never written.
\<close>

definition root_after_65 :: page where
  "root_after_65 = \<lparr>level = 1, count = 3, keys = 21 # 43 # replicate 40 0,
                     payload = 0 # 1 # 3 # replicate 39 0, slack = 0\<rparr>"

text \<open>A full leaf with the keys 0 to 41, and a full inner node with the separators 10 to 410.\<close>

definition full_leaf :: page where
  "full_leaf = \<lparr>level = 0, count = 42, keys = map of_nat [0..<42],
                 payload = map (\<lambda>i. of_nat (i + 100)) [0..<42], slack = 0\<rparr>"

definition full_inner :: page where
  "full_inner = \<lparr>level = 1, count = 42, keys = map (\<lambda>i. of_nat (10 * (i + 1))) [0..<41] @ [0],
                  payload = map of_nat [1..<43], slack = 0\<rparr>"

text \<open>What a run from the empty tree leaves: an observation of the final state, a lookup in it.\<close>

definition after :: "operation list \<Rightarrow> (btree \<Rightarrow> 'a) \<Rightarrow> 'a outcome option" where
  "after ops f =
     (case run ops BTree of
        None \<Rightarrow> None
      | Some Fault \<Rightarrow> Some Fault
      | Some (Done t) \<Rightarrow> Some (Done (f t)))"

definition lookup_after :: "operation list \<Rightarrow> key \<Rightarrow> 64 word option outcome option" where
  "lookup_after ops k =
     (case run ops BTree of
        None \<Rightarrow> None
      | Some Fault \<Rightarrow> Some Fault
      | Some (Done t) \<Rightarrow> lookup_value k t)"

text \<open>The allocated leaf pages that hold a key.\<close>

definition holders :: "key \<Rightarrow> btree \<Rightarrow> pageid list" where
  "holders k t = filter (\<lambda>pid. is_leaf (pages t pid) \<and> k \<in> set (leaf_keys t pid)) (allocated t)"

text \<open>
  Three runs.  \<open>fill_leaf\<close> inserts the keys 0 to 41, the key 21 last, each key \<open>i\<close> with
  the value \<open>i + 100\<close>.  \<open>drain_left\<close> inserts the key 42, which splits the leaf, and
  erases the keys 0 to 20.  \<open>drain_right\<close> erases the key 21 and then the keys 22 to 42.
\<close>

definition fill_leaf :: "operation list" where
  "fill_leaf = ins_range 0 21 @ ins_range 22 20 @ [Ins 21 121]"

definition drain_left :: "operation list" where
  "drain_left = Ins 42 142 # del_range 0 21"

definition drain_right :: "operation list" where
  "drain_right = Del 21 # del_range 22 21"

text \<open>
  The states they lead to.  \<open>st_full\<close>: the root leaf holds the keys 0 to 41.
  \<open>st_left_one\<close>: the left leaf holds the key 21 alone.  \<open>st_right_empty\<close>: the left
  leaf is gone from the root, the right leaf is empty.
\<close>

definition st_full :: btree where
  "st_full = \<lparr>root = Some 0, next_page_id = 1, store = [(0, full_leaf)],
               log = [Fix 0 True, Write 0, Unfix 0 True]\<rparr>"

definition st_left_one :: btree where
  "st_left_one =
     \<lparr>root = Some 2, next_page_id = 3,
      store =
        [(0, \<lparr>level = 0, count = 1,
               keys = 21 # replicate 22 22 @ map of_nat [23..<42],
               payload = 121 # replicate 22 122 @ map (\<lambda>i. of_nat (i + 100)) [23..<42],
               slack = 0\<rparr>),
         (1, \<lparr>level = 0, count = 21,
               keys = map of_nat [22..<43] @ replicate 21 0,
               payload = map (\<lambda>i. of_nat (i + 100)) [22..<43] @ replicate 21 0,
               slack = 0\<rparr>),
         (2, \<lparr>level = 1, count = 2,
               keys = 21 # replicate 41 0,
               payload = 0 # 1 # replicate 40 0,
               slack = 0\<rparr>)],
      log = [Fix 2 False, Unfix 2 False, Fix 0 False, Write 0, Unfix 0 True]\<rparr>"

definition st_right_empty :: btree where
  "st_right_empty =
     \<lparr>root = Some 2, next_page_id = 3,
      store =
        [(0, \<lparr>level = 0, count = 0,
               keys = replicate 23 22 @ map of_nat [23..<42],
               payload = replicate 23 122 @ map (\<lambda>i. of_nat (i + 100)) [23..<42],
               slack = 0\<rparr>),
         (1, zero_page),
         (2, \<lparr>level = 1, count = 1,
               keys = replicate 42 0,
               payload = 1 # replicate 41 0,
               slack = 0\<rparr>)],
      log = [Fix 2 False, Unfix 2 False, Fix 1 False, Write 1, Unfix 1 True]\<rparr>"






text \<open>On a log: a page is changed while it is not pinned.\<close>

fun write_unpinned :: "pageid list \<Rightarrow> event list \<Rightarrow> bool" where
  "write_unpinned pinned [] = False"
| "write_unpinned pinned (Fix pid ex # es) = write_unpinned (pid # pinned) es"
| "write_unpinned pinned (Unfix pid d # es) = write_unpinned (removeAll pid pinned) es"
| "write_unpinned pinned (Write pid # es) = (pid \<notin> set pinned \<or> write_unpinned pinned es)"

text \<open>On a log: the pages changed, and the pages released dirty.\<close>

definition written :: "event list \<Rightarrow> pageid list" where
  "written es = remdups (concat (map (\<lambda>e. case e of Write pid \<Rightarrow> [pid] | _ \<Rightarrow> []) es))"

definition released_dirty :: "event list \<Rightarrow> pageid list" where
  "released_dirty es = remdups (concat (map (\<lambda>e. case e of Unfix pid True \<Rightarrow> [pid] | _ \<Rightarrow> []) es))"


section \<open>Binary search: what it returns\<close>

lemma strict_prefix_nth:
  assumes "cnt \<le> length ks" "strict_prefix ks cnt" "i < j" "j < cnt"
  shows "ks ! i < ks ! j"
proof -
  have "take cnt ks ! i < take cnt ks ! j"
    using assms by (simp add: strict_prefix_def sorted_wrt_iff_nth_less)
  then show ?thesis using assms by simp
qed


text \<open>
  The loop on an array whose slots before the last one are strictly increasing; the last
  slot \<open>keys[cnt - 1]\<close> may hold anything.  It is probed only with \<open>lo = hi = cnt - 1\<close>,
  when every slot before it is known to be smaller than the key.
\<close>

lemma lb_loop_spec:
  assumes "strict_prefix ks (cnt - 1)" "lo \<le> hi + 1" "hi < cnt" "\<forall>j<lo. ks ! j < k"
    "hi + 1 = cnt \<or> k \<le> ks ! hi" "cnt \<le> length ks"
  shows "fst (lb_loop ks k cnt lo hi) \<le> cnt \<and>
         (\<forall>j < fst (lb_loop ks k cnt lo hi). ks ! j < k) \<and>
         (fst (lb_loop ks k cnt lo hi) < cnt \<longrightarrow> k \<le> ks ! fst (lb_loop ks k cnt lo hi)) \<and>
         (snd (lb_loop ks k cnt lo hi) = (fst (lb_loop ks k cnt lo hi) < cnt))"
  using assms
proof (induction ks k cnt lo hi rule: lb_loop.induct)
  case (1 ks k cnt lo hi)
  define c where "c = lo + (hi - lo) div 2"
  show ?case
  proof (cases "lo \<le> hi")
    case False
    with 1(4) have se: "lo = hi + 1" by simp
    have "hi + 1 = cnt"
    proof (rule ccontr)
      assume "hi + 1 \<noteq> cnt"
      with 1(7) have "k \<le> ks ! hi" by simp
      moreover from 1(6) se have "ks ! hi < k" by simp
      ultimately show False by simp
    qed
    moreover have "lb_loop ks k cnt lo hi = (cnt, False)"
      using False by (simp add: lb_loop.simps [of ks k cnt lo hi])
    ultimately show ?thesis using se 1(6) by simp
  next
    case True
    have cs: "lo \<le> c" "c \<le> hi" "c < cnt" using True 1(5) by (auto simp: c_def)
    have len1: "cnt - 1 \<le> length ks" using 1(8) by simp
    have mono: "\<And>i j. i < j \<Longrightarrow> j < cnt - 1 \<Longrightarrow> ks ! i < ks ! j"
      using strict_prefix_nth [OF len1 1(3)] by blast
    have last_probe: "lo = c" if "\<not> c < cnt - 1"
    proof -
      from that cs 1(5) have "c = hi" by simp
      then have "(hi - lo) div 2 = hi - lo" using True by (simp add: c_def)
      then have "hi - lo = 0" by presburger
      then show ?thesis using True \<open>c = hi\<close> by simp
    qed
    have below: "ks ! j < k" if "j < c" "ks ! c \<le> k" for j
    proof (cases "c < cnt - 1")
      case True
      then have "ks ! j < ks ! c" using that(1) by (intro mono)
      with that(2) show ?thesis by simp
    next
      case False
      then have "lo = c" by (rule last_probe)
      with that(1) 1(6) show ?thesis by simp
    qed
    show ?thesis
    proof (cases "ks ! c = k")
      case eq: True
      have "\<forall>j<c. ks ! j < k" using below eq by simp
      with True eq cs show ?thesis
        by (simp add: lb_loop.simps [of ks k cnt lo hi] c_def [symmetric] Let_def)
    next
      case neq: False
      show ?thesis
      proof (cases "ks ! c < k")
        case lt: True
        have a: "\<forall>j<c + 1. ks ! j < k"
        proof (intro allI impI)
          fix j assume "j < c + 1"
          then have "j < c \<or> j = c" by auto
          then show "ks ! j < k" using below [of j] lt by auto
        qed
        have ih: "fst (lb_loop ks k cnt (c + 1) hi) \<le> cnt \<and>
         (\<forall>j < fst (lb_loop ks k cnt (c + 1) hi). ks ! j < k) \<and>
         (fst (lb_loop ks k cnt (c + 1) hi) < cnt \<longrightarrow> k \<le> ks ! fst (lb_loop ks k cnt (c + 1) hi)) \<and>
         (snd (lb_loop ks k cnt (c + 1) hi) = (fst (lb_loop ks k cnt (c + 1) hi) < cnt))"
          using 1(1) [OF True c_def neq lt 1(3) _ 1(5) a 1(7) 1(8)] cs by simp
        have "lb_loop ks k cnt lo hi = lb_loop ks k cnt (c + 1) hi"
          using True neq lt by (simp add: lb_loop.simps [of ks k cnt lo hi] c_def [symmetric] Let_def)
        with ih show ?thesis by simp
      next
        case nlt: False
        then have gt: "k < ks ! c" using neq by simp
        show ?thesis
        proof (cases "c = 0 \<or> ks ! (c - 1) < k")
          case stop: True
          have "\<forall>j<c. ks ! j < k"
          proof (intro allI impI)
            fix j assume jc: "j < c"
            then have c0: "c \<noteq> 0" by simp
            with stop have b: "ks ! (c - 1) < k" by simp
            from jc have "j < c - 1 \<or> j = c - 1" by auto
            then show "ks ! j < k"
            proof
              assume "j < c - 1"
              moreover have "c - 1 < cnt - 1" using cs c0 by simp
              ultimately have "ks ! j < ks ! (c - 1)" by (rule mono)
              with b show ?thesis by simp
            next
              assume "j = c - 1"
              with b show ?thesis by simp
            qed
          qed
          moreover have "lb_loop ks k cnt lo hi = (c, True)"
            using True neq nlt stop by (simp add: lb_loop.simps [of ks k cnt lo hi] c_def [symmetric] Let_def)
          ultimately show ?thesis using cs gt by simp
        next
          case go: False
          then have c0: "c \<noteq> 0" and ge: "k \<le> ks ! (c - 1)" by auto
          have sc: "lo \<le> c - 1 + 1" using cs c0 by simp
          have ec: "c - 1 < cnt" using cs by simp
          have ih: "fst (lb_loop ks k cnt lo (c - 1)) \<le> cnt \<and>
         (\<forall>j < fst (lb_loop ks k cnt lo (c - 1)). ks ! j < k) \<and>
         (fst (lb_loop ks k cnt lo (c - 1)) < cnt \<longrightarrow> k \<le> ks ! fst (lb_loop ks k cnt lo (c - 1))) \<and>
         (snd (lb_loop ks k cnt lo (c - 1)) = (fst (lb_loop ks k cnt lo (c - 1)) < cnt))"
            using 1(2) [OF True c_def neq nlt go 1(3) sc ec 1(6) _ 1(8)] ge by simp
          have "lb_loop ks k cnt lo hi = lb_loop ks k cnt lo (c - 1)"
            using True neq nlt go by (simp add: lb_loop.simps [of ks k cnt lo hi] c_def [symmetric] Let_def)
          with ih show ?thesis by simp
        qed
      qed
    qed
  qed
qed

lemma lower_bound_spec_stale:
  assumes "cnt \<le> length ks" "strict_prefix ks (cnt - 1)"
  shows "fst (lower_bound ks cnt k) \<le> cnt \<and>
         (\<forall>j < fst (lower_bound ks cnt k). ks ! j < k) \<and>
         (fst (lower_bound ks cnt k) < cnt \<longrightarrow> k \<le> ks ! fst (lower_bound ks cnt k)) \<and>
         (snd (lower_bound ks cnt k) = (fst (lower_bound ks cnt k) < cnt))"
proof (cases "cnt = 0")
  case True
  then show ?thesis by (simp add: lower_bound_def)
next
  case False
  then have "lower_bound ks cnt k = lb_loop ks k cnt 0 (cnt - 1)"
    by (simp add: lower_bound_def)
  moreover have "fst (lb_loop ks k cnt 0 (cnt - 1)) \<le> cnt \<and>
         (\<forall>j < fst (lb_loop ks k cnt 0 (cnt - 1)). ks ! j < k) \<and>
         (fst (lb_loop ks k cnt 0 (cnt - 1)) < cnt \<longrightarrow> k \<le> ks ! fst (lb_loop ks k cnt 0 (cnt - 1))) \<and>
         (snd (lb_loop ks k cnt 0 (cnt - 1)) = (fst (lb_loop ks k cnt 0 (cnt - 1)) < cnt))"
    using False assms by (intro lb_loop_spec) auto
  ultimately show ?thesis by simp
qed


text \<open>
  C5 (as amended).  On a node whose key slots before the last one, \<open>keys[0..count - 1)\<close>,
  are strictly increasing, \<open>lower_bound\<close> returns the first index in \<open>[0, count)\<close> whose
  key slot is \<open>\<ge> k\<close>, or \<open>count\<close> when every slot is smaller; its boolean is true
  exactly when that index is inside the node, that is, when some slot \<open>\<ge> k\<close> exists.  It
  does not say that the key at the index equals \<open>k\<close>.  The hypothesis holds on a leaf,
  whose keys \<open>keys[0..count)\<close> are strictly increasing, and on an inner node, which has
  \<open>count - 1\<close> strictly increasing separators and searches the slot \<open>keys[count - 1]\<close> after
  them as well, whatever that slot holds.
\<close>

theorem lower_bound_first_geq:
  assumes "unat (count p) \<le> length (keys p)"
    and "strict_prefix (keys p) (unat (count p) - 1)"
  shows "case lower_bound (keys p) (unat (count p)) k of (i, found) \<Rightarrow>
           i \<le> unat (count p) \<and> (\<forall>j<i. keys p ! j < k) \<and>
           (i < unat (count p) \<longrightarrow> k \<le> keys p ! i) \<and> (found \<longleftrightarrow> i < unat (count p))"
  using lower_bound_spec_stale [OF assms, of k] by (simp add: case_prod_beta)

text \<open>
  The theorem at the inner root that 65 insertions of increasing keys leave (separators
  21 and 43, then a slot holding 0) with the key 50, which no separator reaches.
\<close>

theorem lower_bound_first_geq_witness:
  "unat (count root_after_65) \<le> length (keys root_after_65) \<and>
   strict_prefix (keys root_after_65) (unat (count root_after_65) - 1) \<and>
   \<not> is_leaf root_after_65 \<and> \<not> strict_prefix (keys root_after_65) (unat (count root_after_65)) \<and>
   lower_bound (keys root_after_65) (unat (count root_after_65)) 50 = (3, False) \<and>
   (case lower_bound (keys root_after_65) (unat (count root_after_65)) 50 of (i, found) \<Rightarrow>
           i \<le> unat (count root_after_65) \<and> (\<forall>j<i. keys root_after_65 ! j < 50) \<and>
           (i < unat (count root_after_65) \<longrightarrow> 50 \<le> keys root_after_65 ! i) \<and>
           (found \<longleftrightarrow> i < unat (count root_after_65)))"
proof -
  have a: "unat (count root_after_65) \<le> length (keys root_after_65)" by code_simp
  have b: "strict_prefix (keys root_after_65) (unat (count root_after_65) - 1)" by code_simp
  have c: "\<not> is_leaf root_after_65" by code_simp
  have d: "\<not> strict_prefix (keys root_after_65) (unat (count root_after_65))" by code_simp
  have e: "lower_bound (keys root_after_65) (unat (count root_after_65)) 50 = (3, False)"
    by code_simp
  from lower_bound_first_geq [OF a b, of 50] a b c d e show ?thesis by blast
qed

text \<open>
  C5 as stated fails: in the node \<open>[5]\<close> the search for 3 returns index 0 with the
  boolean true, and the key at index 0 is 5.
\<close>

theorem lower_bound_found_without_match:
  "lower_bound (5 # replicate 41 0) 1 3 = (0, True) \<and> (5 # replicate 41 (0 :: key)) ! 0 \<noteq> 3"
  by code_simp

section \<open>The first insertion\<close>

lemma zero_page_fields:
  "level zero_page = 0" "count zero_page = 0" "keys zero_page = replicate 42 0"
  "payload zero_page = replicate 42 0" "slack zero_page = 0"
  by (simp_all add: zero_page_def)

lemma map_of_put: "map_of (put pid p xs) = (map_of xs)(pid \<mapsto> p)"
  by (induction xs) (auto simp: fun_eq_iff)

lemma pages_write_page:
  "pages (write_page pid p t) q = (if q = pid then p else pages t q)"
  by (simp add: pages_def write_page_def map_of_put)

lemma pages_fix_page [simp]: "pages (fix_page pid ex t) = pages t"
  by (simp add: pages_def fix_page_def fun_eq_iff)

lemma pages_unfix_page [simp]: "pages (unfix_page pid d t) = pages t"
  by (simp add: pages_def unfix_page_def fun_eq_iff)

lemma pages_header_update [simp]:
  "pages (t\<lparr>root := r\<rparr>) = pages t" "pages (t\<lparr>next_page_id := n\<rparr>) = pages t"
  "pages (t\<lparr>log := l\<rparr>) = pages t"
  by (simp_all add: pages_def fun_eq_iff)

lemma LeafNode_insert_zero_page:
  "LeafNode_insert zero_page k v =
     zero_page\<lparr>count := 1, keys := k # replicate 41 0, payload := v # replicate 41 0\<rparr>"
  by (simp add: LeafNode_insert_def zero_page_def lower_bound_def get_value_vector_def
      get_key_vector_leaf_def syncArrays_def copy_to_def)

lemma insert_iter_zero_root:
  assumes "pages t r = zero_page" "parentBuffer st = None" "tree st = t" "currentBuffer st = r"
  shows "insert_iter k v st =
           Return (unfix_page r True (write_page r (LeafNode_insert zero_page k v) t))"
  using assms
  by (simp add: insert_iter_def Let_def header_ok_def is_leaf_def zero_page_def)

text \<open>
  C10.  \<open>insert(k, v)\<close> on a tree without root, where the pool holds a zero-filled
  buffer for page 0: the call returns, the root is page 0, \<open>next_page_id\<close> is 1, and page 0
  is a leaf (level 0) with count 1 that holds exactly the pair \<open>(k, v)\<close>.  The level and
  the count before the insertion are those of the zero-filled buffer.
\<close>

theorem insert_into_empty_tree:
  assumes "root t = None" "pages t 0 = zero_page"
  shows "\<exists>t'. insert k v t = Some (Done t') \<and> root t' = Some 0 \<and> next_page_id t' = 1 \<and>
              level (pages t' 0) = 0 \<and> count (pages t' 0) = 1 \<and>
              get_key_vector_leaf (pages t' 0) = [k] \<and> get_value_vector (pages t' 0) = [v]"
proof -
  let ?t0 = "t\<lparr>root := Some 0, next_page_id := 1\<rparr>"
  let ?t1 = "fix_page 0 True ?t0"
  let ?st = "\<lparr>tree = ?t1, currentBuffer = 0, parentBuffer = None,
               currentIsDirty = False, parentIsDirty = False\<rparr>"
  let ?t' = "unfix_page 0 True (write_page 0 (LeafNode_insert zero_page k v) ?t1)"
  have p: "pages ?t1 0 = zero_page" using assms(2) by simp
  have "insert_iter k v ?st = Return ?t'"
    by (rule insert_iter_zero_root [OF p]) simp_all
  then have "insert_loop k v ?st = Some (Done ?t')"
    by (subst insert_loop.simps) simp
  then have "insert k v t = Some (Done ?t')"
    using assms(1) by (simp add: insert_def)
  moreover have "root ?t' = Some 0" "next_page_id ?t' = 1"
    by (simp_all add: unfix_page_def write_page_def fix_page_def)
  moreover have "pages ?t' 0 = LeafNode_insert zero_page k v"
    by (simp add: pages_write_page)
  ultimately show ?thesis
    by (simp add: LeafNode_insert_zero_page zero_page_fields get_key_vector_leaf_def
        get_value_vector_def)
qed

text \<open>The theorem at the freshly constructed tree, key 7 and value 9.\<close>

theorem insert_into_empty_tree_witness:
  "root BTree = None \<and> pages BTree 0 = zero_page \<and>
   (\<exists>t'. insert 7 9 BTree = Some (Done t') \<and> root t' = Some 0 \<and> next_page_id t' = 1 \<and>
              level (pages t' 0) = 0 \<and> count (pages t' 0) = 1 \<and>
              get_key_vector_leaf (pages t' 0) = [7] \<and> get_value_vector (pages t' 0) = [9])"
proof -
  have a: "root BTree = None" by (simp add: BTree_def)
  have b: "pages BTree 0 = zero_page" by (simp add: BTree_def pages_def)
  show ?thesis using insert_into_empty_tree [OF a b, of 7 9] a b by simp
qed

section \<open>Splitting a full node\<close>

lemma take_copy_to: "n \<le> length vec \<Longrightarrow> take n (copy_to vec arr) = take n vec"
  by (simp add: copy_to_def)

lemma strict_prefix_le:
  assumes "cnt \<le> length ks" "strict_prefix ks cnt" "i \<le> j" "j < cnt"
  shows "ks ! i \<le> ks ! j"
proof (cases "i = j")
  case True then show ?thesis by simp
next
  case False
  with assms(3) have "i < j" by simp
  from strict_prefix_nth [OF assms(1,2) this assms(4)] show ?thesis by simp
qed

lemma LeafNode_split_full:
  assumes c: "count p = 42" and lk: "length (keys p) = 42" and lv: "length (payload p) = 42"
    and s: "strict_prefix (keys p) 42"
  shows "count (fst (LeafNode_split p buf)) = 22"
    and "count (fst (snd (LeafNode_split p buf))) = 20"
    and "get_key_vector_leaf (fst (LeafNode_split p buf)) = take 22 (keys p)"
    and "get_key_vector_leaf (fst (snd (LeafNode_split p buf))) = drop 22 (keys p)"
    and "get_value_vector (fst (LeafNode_split p buf)) = take 22 (payload p)"
    and "get_value_vector (fst (snd (LeafNode_split p buf))) = drop 22 (payload p)"
    and "snd (snd (LeafNode_split p buf)) = keys p ! 21"
  using c lk lv
  by (simp_all add: LeafNode_split_def Let_def get_key_vector_leaf_def get_value_vector_def
      take_copy_to val_mem_def)

lemma LeafNode_split_order:
  assumes c: "count p = 42" and lk: "length (keys p) = 42" and lv: "length (payload p) = 42"
    and s: "strict_prefix (keys p) 42"
  shows "\<forall>x \<in> set (take 22 (keys p)). x \<le> keys p ! 21"
    and "keys p ! 21 \<in> set (take 22 (keys p))"
    and "\<forall>x \<in> set (drop 22 (keys p)). keys p ! 21 < x"
    and "distinct (keys p)"
proof -
  have le: "42 \<le> length (keys p)" using lk by simp
  show "\<forall>x \<in> set (take 22 (keys p)). x \<le> keys p ! 21"
  proof
    fix x assume "x \<in> set (take 22 (keys p))"
    then obtain i where i: "i < 22" "x = keys p ! i"
      using lk by (auto simp: in_set_conv_nth)
    then have "keys p ! i \<le> keys p ! 21"
      by (intro strict_prefix_le [OF le s]) simp_all
    with i show "x \<le> keys p ! 21" by simp
  qed
  have "take 22 (keys p) ! 21 = keys p ! 21" by simp
  moreover have "21 < length (take 22 (keys p))" using lk by simp
  ultimately show "keys p ! 21 \<in> set (take 22 (keys p))"
    by (metis nth_mem)
  show "\<forall>x \<in> set (drop 22 (keys p)). keys p ! 21 < x"
  proof
    fix x assume "x \<in> set (drop 22 (keys p))"
    then obtain i where i: "i < 20" "x = keys p ! (22 + i)"
      using lk by (auto simp: in_set_conv_nth)
    then have "keys p ! 21 < keys p ! (22 + i)"
      by (intro strict_prefix_nth [OF le s]) simp_all
    with i show "keys p ! 21 < x" by simp
  qed
  have "sorted_wrt (<) (keys p)" using s lk by (simp add: strict_prefix_def)
  then show "distinct (keys p)" by (simp add: strict_sorted_iff)
qed


lemma InnerNode_split_full:
  assumes c: "count q = 42" and lk: "length (keys q) = 42" and lv: "length (payload q) = 42"
  shows "count (fst (InnerNode_split q buf)) = 21"
    and "count (fst (snd (InnerNode_split q buf))) = 21"
    and "level (fst (InnerNode_split q buf)) = level q"
    and "level (fst (snd (InnerNode_split q buf))) = level q"
    and "get_child_vector (fst (InnerNode_split q buf)) = take 21 (payload q)"
    and "get_child_vector (fst (snd (InnerNode_split q buf))) = drop 21 (payload q)"
    and "get_key_vector_inner (fst (InnerNode_split q buf)) = take 20 (keys q)"
    and "get_key_vector_inner (fst (snd (InnerNode_split q buf))) = take 20 (drop 21 (keys q))"
    and "snd (snd (InnerNode_split q buf)) = keys q ! 20"
  using c lk lv
  by (simp_all add: InnerNode_split_def Let_def get_key_vector_inner_def get_child_vector_def
      take_copy_to)

lemma take_around:
  "n < length ks \<Longrightarrow> take (Suc n + m) ks = take n ks @ ks ! n # take m (drop (Suc n) ks)"
proof -
  assume n: "n < length ks"
  have "take (Suc n + m) ks = take (Suc n) ks @ take m (drop (Suc n) ks)"
    by (rule take_add)
  also have "take (Suc n) ks = take n ks @ [ks ! n]"
    using n by (rule take_Suc_conv_app_nth)
  finally show ?thesis by simp
qed

lemma take_41_parts:
  assumes "length (ks :: key list) = 42"
  shows "take 20 ks @ [ks ! 20] @ take 20 (drop 21 ks) = take 41 ks"
proof -
  have "take 41 ks = take (Suc 20 + 20) ks" by simp
  also have "\<dots> = take 20 ks @ ks ! 20 # take 20 (drop (Suc 20) ks)"
    using assms by (intro take_around) simp
  finally show ?thesis by simp
qed

lemma InnerNode_split_order:
  assumes lk: "length (keys q) = 42" and s: "strict_prefix (keys q) 41"
  shows "\<forall>x \<in> set (take 20 (keys q)). x < keys q ! 20"
    and "\<forall>x \<in> set (take 20 (drop 21 (keys q))). keys q ! 20 < x"
    and "distinct (take 41 (keys q))"
proof -
  have le: "41 \<le> length (keys q)" using lk by simp
  show "\<forall>x \<in> set (take 20 (keys q)). x < keys q ! 20"
  proof
    fix x assume "x \<in> set (take 20 (keys q))"
    then obtain i where i: "i < 20" "x = keys q ! i"
      using lk by (auto simp: in_set_conv_nth)
    then have "keys q ! i < keys q ! 20"
      by (intro strict_prefix_nth [OF le s]) simp_all
    with i show "x < keys q ! 20" by simp
  qed
  show "\<forall>x \<in> set (take 20 (drop 21 (keys q))). keys q ! 20 < x"
  proof
    fix x assume "x \<in> set (take 20 (drop 21 (keys q)))"
    then obtain i where i: "i < 20" "x = keys q ! (21 + i)"
      using lk by (auto simp: in_set_conv_nth)
    then have "keys q ! 20 < keys q ! (21 + i)"
      by (intro strict_prefix_nth [OF le s]) simp_all
    with i show "keys q ! 20 < x" by simp
  qed
  show "distinct (take 41 (keys q))"
    using s by (simp add: strict_prefix_def strict_sorted_iff)
qed


lemma split_leaf_part:
  assumes "count p = 42" "length (keys p) = 42" "length (payload p) = 42"
    "strict_prefix (keys p) 42"
  shows "case LeafNode_split p buf of (l, r, sep) \<Rightarrow>
           unat (count l) = 22 \<and> unat (count r) = (42 - 1) div 2 \<and>
           get_key_vector_leaf l @ get_key_vector_leaf r = get_key_vector_leaf p \<and>
           get_value_vector l @ get_value_vector r = get_value_vector p \<and>
           distinct (get_key_vector_leaf p) \<and>
           (\<forall>x \<in> set (get_key_vector_leaf l). x \<le> sep) \<and> sep \<in> set (get_key_vector_leaf l) \<and>
           (\<forall>x \<in> set (get_key_vector_leaf r). sep < x)"
proof -
  have kp: "get_key_vector_leaf p = keys p" "get_value_vector p = payload p"
    using assms by (simp_all add: get_key_vector_leaf_def get_value_vector_def)
  show ?thesis
    using LeafNode_split_full [OF assms, of buf] LeafNode_split_order [OF assms] kp
    by (simp add: case_prod_beta)
qed

lemma split_inner_part:
  assumes "count q = 42" "length (keys q) = 42" "length (payload q) = 42"
    "strict_prefix (keys q) 41"
  shows "case InnerNode_split q buf of (l, r, sep) \<Rightarrow>
           unat (count l) = 21 \<and> unat (count r) = 21 \<and> level l = level q \<and> level r = level q \<and>
           get_child_vector l @ get_child_vector r = get_child_vector q \<and>
           get_key_vector_inner l @ [sep] @ get_key_vector_inner r = get_key_vector_inner q \<and>
           distinct (get_key_vector_inner q) \<and>
           (\<forall>x \<in> set (get_key_vector_inner l). x < sep) \<and>
           (\<forall>x \<in> set (get_key_vector_inner r). sep < x)"
proof -
  have kq: "get_key_vector_inner q = take 41 (keys q)" "get_child_vector q = payload q"
    using assms by (simp_all add: get_key_vector_inner_def get_child_vector_def)
  show ?thesis
    using InnerNode_split_full [OF assms(1-3), of buf] InnerNode_split_order [OF assms(2,4)]
      take_41_parts [OF assms(2)] kq
    by (simp add: case_prod_beta)
qed

text \<open>
  C3 (as amended).  A full leaf (count 42, keys strictly increasing) is split into a
  left half that keeps the first 22 entries and a new right half that receives the
  last \<open>\<lfloor>(count - 1) / 2\<rfloor> = 20\<close>; the keys and the values of the two halves, one after
  the other, are those of the old leaf, whose keys are distinct, so every key is in
  exactly one half; the separator is the largest key of the left half: every key on the
  left is \<open>\<le>\<close> the separator and the separator is \<open><\<close> every key on the right.  A full
  inner node (42 children, 41 strictly increasing separators) is split into two nodes
  of 21 children on the old level; the separator returned is the 21st, it stays in
  neither half, the 20 separators before it go left and are smaller, the 20 after it go
  right and are larger.  Both halves are non-empty in both cases.
\<close>

theorem split_halves:
  assumes "count p = 42" "length (keys p) = 42" "length (payload p) = 42"
    "strict_prefix (keys p) 42"
    and "count q = 42" "length (keys q) = 42" "length (payload q) = 42"
    "strict_prefix (keys q) 41"
  shows "(case LeafNode_split p buf of (l, r, sep) \<Rightarrow>
           unat (count l) = 22 \<and> unat (count r) = (42 - 1) div 2 \<and>
           get_key_vector_leaf l @ get_key_vector_leaf r = get_key_vector_leaf p \<and>
           get_value_vector l @ get_value_vector r = get_value_vector p \<and>
           distinct (get_key_vector_leaf p) \<and>
           (\<forall>x \<in> set (get_key_vector_leaf l). x \<le> sep) \<and> sep \<in> set (get_key_vector_leaf l) \<and>
           (\<forall>x \<in> set (get_key_vector_leaf r). sep < x)) \<and>
         (case InnerNode_split q buf' of (l, r, sep) \<Rightarrow>
           unat (count l) = 21 \<and> unat (count r) = 21 \<and> level l = level q \<and> level r = level q \<and>
           get_child_vector l @ get_child_vector r = get_child_vector q \<and>
           get_key_vector_inner l @ [sep] @ get_key_vector_inner r = get_key_vector_inner q \<and>
           distinct (get_key_vector_inner q) \<and>
           (\<forall>x \<in> set (get_key_vector_inner l). x < sep) \<and>
           (\<forall>x \<in> set (get_key_vector_inner r). sep < x))"
  using split_leaf_part [OF assms(1-4)] split_inner_part [OF assms(5-8)] by (rule conjI)

text \<open>The theorem at the full leaf 0..41 and the full inner node 10..410.\<close>

theorem split_halves_witness:
  "count full_leaf = 42 \<and> length (keys full_leaf) = 42 \<and> length (payload full_leaf) = 42 \<and>
   strict_prefix (keys full_leaf) 42 \<and>
   count full_inner = 42 \<and> length (keys full_inner) = 42 \<and> length (payload full_inner) = 42 \<and>
   strict_prefix (keys full_inner) 41 \<and>
   ((case LeafNode_split full_leaf zero_page of (l, r, sep) \<Rightarrow>
           unat (count l) = 22 \<and> unat (count r) = (42 - 1) div 2 \<and>
           get_key_vector_leaf l @ get_key_vector_leaf r = get_key_vector_leaf full_leaf \<and>
           get_value_vector l @ get_value_vector r = get_value_vector full_leaf \<and>
           distinct (get_key_vector_leaf full_leaf) \<and>
           (\<forall>x \<in> set (get_key_vector_leaf l). x \<le> sep) \<and> sep \<in> set (get_key_vector_leaf l) \<and>
           (\<forall>x \<in> set (get_key_vector_leaf r). sep < x)) \<and>
    (case InnerNode_split full_inner zero_page of (l, r, sep) \<Rightarrow>
           unat (count l) = 21 \<and> unat (count r) = 21 \<and> level l = level full_inner \<and>
           level r = level full_inner \<and>
           get_child_vector l @ get_child_vector r = get_child_vector full_inner \<and>
           get_key_vector_inner l @ [sep] @ get_key_vector_inner r = get_key_vector_inner full_inner \<and>
           distinct (get_key_vector_inner full_inner) \<and>
           (\<forall>x \<in> set (get_key_vector_inner l). x < sep) \<and>
           (\<forall>x \<in> set (get_key_vector_inner r). sep < x)))"
proof -
  have h1: "count full_leaf = 42" by (simp add: full_leaf_def)
  have h2: "length (keys full_leaf) = 42" by (simp add: full_leaf_def)
  have h3: "length (payload full_leaf) = 42" by (simp add: full_leaf_def)
  have h4: "strict_prefix (keys full_leaf) 42" by code_simp
  have h5: "count full_inner = 42" by (simp add: full_inner_def)
  have h6: "length (keys full_inner) = 42" by (simp add: full_inner_def)
  have h7: "length (payload full_inner) = 42" by (simp add: full_inner_def)
  have h8: "strict_prefix (keys full_inner) 41" by code_simp
  from split_halves [OF h1 h2 h3 h4 h5 h6 h7 h8, of zero_page zero_page] h1 h2 h3 h4 h5 h6 h7 h8
  show ?thesis by blast
qed

text \<open>
  C3 as stated fails on the full leaf with the keys 0 to 41: the left half keeps 22
  entries, not \<open>\<lfloor>(42 - 1) / 2\<rfloor> = 20\<close>, and its last key 21 is the separator itself, so
  not every key on the left is smaller than the separator.
\<close>

theorem leaf_split_keeps_22_and_separator:
  "unat (count (fst (LeafNode_split full_leaf zero_page))) = 22 \<and>
   (unat (count full_leaf) - 1) div 2 = 20 \<and>
   snd (snd (LeafNode_split full_leaf zero_page)) = 21 \<and>
   get_key_vector_leaf (fst (LeafNode_split full_leaf zero_page)) ! 21 = 21 \<and>
   \<not> get_key_vector_leaf (fst (LeafNode_split full_leaf zero_page)) ! 21
       < snd (snd (LeafNode_split full_leaf zero_page))"
  by code_simp

section \<open>Array bounds of the element-moving helpers\<close>

lemma shift_left_chk_agrees:
  assumes "shift_left_chk arr i n = Some r"
  shows "r = shift_left arr (arr @ rest) i n"
proof (cases "n = 0")
  case True
  with assms show ?thesis by (simp add: shift_left_chk_def slice_chk_def shift_left_def)
next
  case False
  with assms have b: "i + 1 + n \<le> length arr" and r: "r = take i arr @ take n (drop (i + 1) arr) @ drop (i + n) arr"
    by (auto simp: shift_left_chk_def slice_chk_def split: if_splits)
  from b have "take n (drop (i + 1) (arr @ rest)) = take n (drop (i + 1) arr)" by simp
  with r show ?thesis by (simp add: shift_left_def)
qed

lemma moveDataToLeftFrom_chk_agrees:
  assumes "moveDataToLeftFrom_chk p i = Some q"
  shows "q = moveDataToLeftFrom p i"
proof -
  let ?n = "unat (count p) - i"
  from assms obtain ks vs where ks: "shift_left_chk (keys p) i ?n = Some ks"
    and vs: "shift_left_chk (payload p) i ?n = Some vs"
    and q: "q = p\<lparr>keys := ks, payload := vs, count := count p - 1\<rparr>"
    by (auto simp: moveDataToLeftFrom_chk_def Let_def split: option.splits)
  have "ks = shift_left (keys p) (key_mem p) i ?n"
    unfolding key_mem_def by (rule shift_left_chk_agrees [OF ks])
  moreover have "vs = shift_left (payload p) (val_mem p) i ?n"
    unfolding val_mem_def by (rule shift_left_chk_agrees [OF vs])
  ultimately show ?thesis using q by (simp add: moveDataToLeftFrom_def Let_def)
qed

lemma moveDataToLeftFrom_chk_below_capacity:
  assumes "unat (count p) < 42" "length (keys p) = 42" "length (payload p) = 42" "i \<le> unat (count p)"
  shows "moveDataToLeftFrom_chk p i = Some (moveDataToLeftFrom p i)"
proof -
  have "\<exists>q. moveDataToLeftFrom_chk p i = Some q"
    using assms by (simp add: moveDataToLeftFrom_chk_def Let_def shift_left_chk_def slice_chk_def)
  then show ?thesis using moveDataToLeftFrom_chk_agrees by auto
qed

text \<open>
  C9 fails at full capacity.  With every access checked against the 42 slots, the
  split of the full leaf 0..41 (its copy of the values reads \<open>values[42]\<close>), the
  left-shift of \<open>erase\<close> at index 0 of that leaf (it reads \<open>keys[42]\<close> and \<open>values[42]\<close>) and
  the removal of the separator 10 from the full inner node (it reads \<open>keys[42]\<close> and
  \<open>children[42]\<close>) each end in an access outside the array.
\<close>

theorem full_node_helpers_leave_arrays:
  "unat (count full_leaf) \<le> kCapacity \<and> length (keys full_leaf) = kCapacity \<and>
   length (payload full_leaf) = kCapacity \<and>
   LeafNode_split_chk full_leaf zero_page = None \<and>
   moveDataToLeftFrom_chk full_leaf 0 = None \<and>
   unat (count full_inner) \<le> kCapacity \<and> length (keys full_inner) = kCapacity \<and>
   length (payload full_inner) = kCapacity \<and>
   remove_from_parent_chk 10 full_inner = None"
  by code_simp

section \<open>A split without parent\<close>


lemma state_fields [simp]:
  "root (write_page pid p t) = root t" "next_page_id (write_page pid p t) = next_page_id t"
  "root (fix_page pid ex t) = root t" "next_page_id (fix_page pid ex t) = next_page_id t"
  "root (unfix_page pid d t) = root t" "next_page_id (unfix_page pid d t) = next_page_id t"
  by (simp_all add: write_page_def fix_page_def unfix_page_def)






lemma word_succ_neq: "(x :: 64 word) + 1 \<noteq> x"
  by simp




section \<open>Filling the root leaf\<close>

lemma run_append:
  "run (a @ b) t = (case run a t of Some (Done t') \<Rightarrow> run b t' | r \<Rightarrow> r)"
proof (induction a arbitrary: t)
  case Nil
  show ?case by simp
next
  case (Cons x a)
  show ?case
    by (cases x) (auto simp: Cons.IH split: option.splits outcome.splits)
qed



lemma length_vec_insert [simp]: "length (vec_insert ks i k) = Suc (length ks)"
  by (simp add: vec_insert_def)









lemma leaf_root_log [simp]: "leaf_root n S (t\<lparr>log := l\<rparr>) = leaf_root n S t"
  by (simp add: leaf_root_def)

section \<open>Insertion into a grown tree returns\<close>























section \<open>Counting pages, entries and child slots\<close>





















section \<open>The passes through the loop of insert\<close>









lemma tree_ok_log [simp]: "tree_ok (t\<lparr>log := l\<rparr>) = tree_ok t"
  by (simp add: tree_ok_def pages_ok_def inner_ok_def)

lemma root_level_log [simp]: "root_level (t\<lparr>log := l\<rparr>) = root_level t"
  by (simp add: root_level_def cong: option.case_cong)

lemma census_log [simp]: "census (t\<lparr>log := l\<rparr>) n = census t n"
  by (simp add: census_def total_def)



section \<open>Growth past the root leaf\<close>









section \<open>Runs from the empty tree\<close>

lemma reach_full: "run fill_leaf BTree = Some (Done st_full)"
  by code_simp

lemma reach_left_one: "run drain_left st_full = Some (Done st_left_one)"
  by code_simp

lemma reach_right_empty: "run drain_right st_left_one = Some (Done st_right_empty)"
  by code_simp

lemmas run_chain = run_append reach_full reach_left_one reach_right_empty option.case outcome.case

section \<open>Inserting a key that is the last one on the left of a split\<close>

text \<open>
  After a split the loop of \<open>insert\<close> goes on in the new right node for
  \<open>key >= splitKey\<close>, while the separator is the largest key of the left node and
  \<open>lookup\<close> routes a key equal to the separator to the left.
\<close>

text \<open>
  C1 fails.  The keys 0 to 41 are inserted with the values 100 to 141 and fill the root
  leaf; then \<open>insert(21, 7)\<close> splits the leaf.  A lookup of 21 after it returns 121, the
  value of the earlier insertion, not 7.
\<close>

theorem lookup_after_upsert_into_full_leaf:
  "lookup_after (fill_leaf @ [Ins 21 7]) 21 = Some (Done (Some 121))"
proof -
  have "run (fill_leaf @ [Ins 21 7]) BTree = run [Ins 21 7] st_full"
    by (simp only: run_chain)
  moreover have "(case run [Ins 21 7] st_full of
                    None \<Rightarrow> None
                  | Some Fault \<Rightarrow> Some Fault
                  | Some (Done t) \<Rightarrow> lookup_value 21 t) = Some (Done (Some 121))"
    by code_simp
  ultimately show ?thesis by (simp only: lookup_after_def)
qed

text \<open>
  C2 fails.  After \<open>fill_leaf\<close>, whose last step is \<open>insert(21, 121)\<close>, the leaf is full: 42
  entries, and a lookup of 21 returns 121.  The following \<open>insert(21, 7)\<close> leaves 43
  entries, and a lookup of 21 still returns 121.
\<close>

theorem second_insert_adds_entry_and_is_not_seen:
  "after fill_leaf
     (\<lambda>t. (entry_count t, lookup_value 21 t,
           case run [Ins 21 7] t of
             Some (Done t') \<Rightarrow> Some (entry_count t', lookup_value 21 t')
           | _ \<Rightarrow> None))
   = Some (Done (42, Some (Done (Some 121)), Some (43, Some (Done (Some 121)))))"
proof -
  have "(entry_count st_full, lookup_value 21 st_full,
           case run [Ins 21 7] st_full of
             Some (Done t') \<Rightarrow> Some (entry_count t', lookup_value 21 t')
           | _ \<Rightarrow> None)
        = (42, Some (Done (Some 121)), Some (43, Some (Done (Some 121))))"
    by code_simp
  then show ?thesis by (simp only: after_def run_chain)
qed

text \<open>
  C7 fails in its last part.  After \<open>fill_leaf\<close> and then \<open>insert(21, 7)\<close>, the root is the
  inner page 2 with the children 0 and 1, and both leaves hold the key 21.
\<close>

theorem key_in_two_leaves:
  "after (fill_leaf @ [Ins 21 7])
     (\<lambda>t. (holders 21 t, root t, level (pages t 2), get_child_vector (pages t 2)))
   = Some (Done ([0, 1], Some 2, 1, [0, 1]))"
proof -
  have "run (fill_leaf @ [Ins 21 7]) BTree = run [Ins 21 7] st_full"
    by (simp only: run_chain)
  moreover have "(case run [Ins 21 7] st_full of
                    None \<Rightarrow> None
                  | Some Fault \<Rightarrow> Some Fault
                  | Some (Done t) \<Rightarrow>
                      Some (Done (holders 21 t, root t, level (pages t 2), get_child_vector (pages t 2))))
                 = Some (Done ([0, 1], Some 2, 1, [0, 1]))"
    by code_simp
  ultimately show ?thesis by (simp only: after_def)
qed

section \<open>Erasing the last key of a leaf\<close>

text \<open>
  C8 fails.  After \<open>fill_leaf\<close> and \<open>drain_left\<close> the left leaf (page 0) holds the key 21
  alone and the root (page 2) has the separator 21.  \<open>erase(21)\<close> releases the root clean
  on the way down, empties the leaf, and then removes the separator from the root: the
  root is changed while it is not pinned, and it is not among the pages released dirty.
\<close>

theorem erase_changes_released_parent:
  "after ((fill_leaf @ drain_left) @ [Del 21])
     (\<lambda>t. (log t, write_unpinned [] (log t), written (log t), released_dirty (log t)))
   = Some (Done ([Fix 2 False, Unfix 2 False, Fix 0 False, Write 0, Write 2, Unfix 0 True],
                 True, [0, 2], [0]))"
proof -
  have "run ((fill_leaf @ drain_left) @ [Del 21]) BTree = run [Del 21] st_left_one"
    by (simp only: run_chain)
  moreover have "(case run [Del 21] st_left_one of
                    None \<Rightarrow> None
                  | Some Fault \<Rightarrow> Some Fault
                  | Some (Done t) \<Rightarrow>
                      Some (Done (log t, write_unpinned [] (log t), written (log t),
                                  released_dirty (log t))))
                 = Some (Done ([Fix 2 False, Unfix 2 False, Fix 0 False, Write 0, Write 2,
                                Unfix 0 True], True, [0, 2], [0]))"
    by code_simp
  ultimately show ?thesis by (simp only: after_def)
qed

text \<open>
  C4 fails.  After \<open>fill_leaf\<close>, \<open>drain_left\<close> and \<open>drain_right\<close> the root is an inner node
  with one child, an empty leaf, and the key slot 0 of the root holds 0.  Then
  \<open>insert(0, 5)\<close>, \<open>erase(0)\<close>: the leaf is empty again and the root loses its only
  child.  \<open>lookup(0)\<close> then takes \<open>children[count - 1]\<close> of a root with count 0: it does not
  return empty.
\<close>

theorem lookup_after_erase_on_emptied_root:
  "lookup_after (((fill_leaf @ drain_left) @ drain_right) @ [Ins 0 5, Del 0]) 0 = Some Fault"
proof -
  have "run (((fill_leaf @ drain_left) @ drain_right) @ [Ins 0 5, Del 0]) BTree
          = run [Ins 0 5, Del 0] st_right_empty"
    by (simp only: run_chain)
  moreover have "(case run [Ins 0 5, Del 0] st_right_empty of
                    None \<Rightarrow> None
                  | Some Fault \<Rightarrow> Some Fault
                  | Some (Done t) \<Rightarrow> lookup_value 0 t) = Some Fault"
    by code_simp
  ultimately show ?thesis by (simp only: lookup_after_def)
qed

end
